theory Spec2Isabelle
  imports Main "HOL-Library.Sublist"
begin

section \<open>The e-mail list bot: data model\<close>

text \<open>
  The program is \<^verbatim>\<open>src/bot.py\<close>. A Python \<^verbatim>\<open>str\<close> is a sequence of Unicode code
  points, so a string is modelled as a list of code points (natural numbers); this
  matters because \<^verbatim>\<open>str.splitlines\<close> breaks lines at code points beyond the 8-bit
  range (U+2028, U+2029). The helper \<open>str\<close> writes an ASCII literal as such a list.
\<close>

type_synonym pystr = "nat list"

definition str :: "string \<Rightarrow> pystr" where
  "str cs = map of_char cs"

text \<open>
  The database of class \<^verbatim>\<open>DB\<close> holds two tables,
  \<^verbatim>\<open>user (id INTEGER PRIMARY KEY, email TEXT)\<close> and
  \<^verbatim>\<open>list (id INTEGER PRIMARY KEY, list TEXT)\<close>. A table is the list of its rows in
  insertion order. Identifiers are Python integers. User identifiers come from Telegram
  and keys of new rows from SQLite, both inside SQLite's 64-bit range; the list
  identifier of a button press comes from the callback data and may be any number, which
  \<open>get_list\<close> accounts for.
\<close>

type_synonym table = "(int \<times> pystr) list"

record db =
  user_tbl :: table
  list_tbl :: table

text \<open>\<^verbatim>\<open>DB.__init__\<close> on a new database file: both tables exist and are empty.\<close>

definition DB_init :: db where
  "DB_init = \<lparr>user_tbl = [], list_tbl = []\<rparr>"

text \<open>
  The exceptions of \<^verbatim>\<open>DB.get_list\<close>: its own \<^verbatim>\<open>ValueError\<close>, carrying the identifier
  of its message, and the \<^verbatim>\<open>OverflowError\<close> that \<^verbatim>\<open>cursor.execute\<close> raises when a
  Python integer bound to a parameter does not fit SQLite's signed 64-bit integer.
\<close>

datatype error = ValueError int | OverflowError

definition sqlite_int :: "int \<Rightarrow> bool" where
  "sqlite_int i \<longleftrightarrow> - (2 ^ 63) \<le> i \<and> i < 2 ^ 63"

subsection \<open>The methods of class DB\<close>

text \<open>
  \<^verbatim>\<open>INSERT OR REPLACE INTO user VALUES (?, ?)\<close>: every row with the same primary key is
  deleted, then the new row is inserted.
\<close>

definition insert_user :: "db \<Rightarrow> int \<Rightarrow> pystr \<Rightarrow> db" where
  "insert_user s user_id email =
     s\<lparr>user_tbl := filter (\<lambda>r. fst r \<noteq> user_id) (user_tbl s) @ [(user_id, email)]\<rparr>"

text \<open>
  \<^verbatim>\<open>INSERT INTO list(list) VALUES (?)\<close> leaves the primary key to SQLite, which takes 1
  for an empty table and otherwise one more than the largest key of the table;
  \<^verbatim>\<open>lastrowid\<close> is that key.
\<close>

definition lastrowid :: "table \<Rightarrow> int" where
  "lastrowid rows = (if rows = [] then 1 else Max (set (map fst rows)) + 1)"

definition insert_list :: "db \<Rightarrow> pystr \<Rightarrow> int \<times> db" where
  "insert_list s list_text =
     (let rowid = lastrowid (list_tbl s)
      in (rowid, s\<lparr>list_tbl := list_tbl s @ [(rowid, list_text)]\<rparr>))"

text \<open>\<^verbatim>\<open>UPDATE list SET list=? WHERE id=?\<close>: no row matching is no error.\<close>

definition update_list :: "db \<Rightarrow> int \<Rightarrow> pystr \<Rightarrow> db" where
  "update_list s list_id new_list =
     s\<lparr>list_tbl := map (\<lambda>r. if fst r = list_id then (fst r, new_list) else r) (list_tbl s)\<rparr>"

text \<open>\<^verbatim>\<open>fetchone()\<close> gives the first matching row, or \<^verbatim>\<open>None\<close>.\<close>

definition get_email :: "db \<Rightarrow> int \<Rightarrow> pystr option" where
  "get_email s user_id = map_of (user_tbl s) user_id"

definition get_list :: "db \<Rightarrow> int \<Rightarrow> error + pystr" where
  "get_list s list_id =
     (if \<not> sqlite_int list_id then Inl OverflowError
      else case map_of (list_tbl s) list_id of
             None \<Rightarrow> Inl (ValueError list_id)
           | Some list_text \<Rightarrow> Inr list_text)"

subsection \<open>Python's str.splitlines\<close>

text \<open>
  The line boundaries of \<^verbatim>\<open>str.splitlines\<close>: LF, VT, FF, CR, FS, GS, RS, NEL (U+0085),
  LINE SEPARATOR (U+2028) and PARAGRAPH SEPARATOR (U+2029); CR LF counts as one boundary.
\<close>

definition is_linebreak :: "nat \<Rightarrow> bool" where
  "is_linebreak c \<longleftrightarrow> c \<in> {10, 11, 12, 13, 28, 29, 30, 133, 8232, 8233}"

text \<open>
  The loop of \<^verbatim>\<open>splitlines\<close>: scan to the next boundary, emit the line before it, skip
  the boundary (both characters of CR LF, which \<open>skip_break\<close> does), and stop when the
  string is used up, so a string that ends in a boundary has no empty last line.
\<close>

definition skip_break :: "nat \<Rightarrow> pystr \<Rightarrow> pystr" where
  "skip_break b r =
     (if b = 13 \<and> (case r of [] \<Rightarrow> False | d # _ \<Rightarrow> d = 10) then tl r else r)"

function splitlines :: "pystr \<Rightarrow> pystr list" where
  "splitlines [] = []"
| "splitlines (c # cs) =
     (let line = takeWhile (\<lambda>x. \<not> is_linebreak x) (c # cs);
          rest = dropWhile (\<lambda>x. \<not> is_linebreak x) (c # cs)
      in case rest of
           [] \<Rightarrow> [line]
         | b # r \<Rightarrow> line # splitlines (skip_break b r))"
  by pat_completeness auto
termination
proof (relation "measure length")
  show "wf (measure length)" by simp
next
  fix c :: nat and cs line rest b r
  assume "rest = dropWhile (\<lambda>x. \<not> is_linebreak x) (c # cs)" and "rest = b # r"
  then have "length (b # r) \<le> length (c # cs)"
    by (metis length_dropWhile_le)
  then have "length r < length (c # cs)" by simp
  moreover have "length (skip_break b r) \<le> length r"
    by (simp add: skip_break_def)
  ultimately show "(skip_break b r, c # cs) \<in> measure length"
    by simp
qed

subsection \<open>The handlers\<close>

text \<open>
  What \<^verbatim>\<open>add_mail\<close> sends back when no exception escapes it:
  \<^item> \<open>NotRegistered\<close>: the alert of \<^verbatim>\<open>query.answer\<close> asking the user to register first;
  \<^item> \<open>AlreadyAdded\<close>: the alert of \<^verbatim>\<open>query.answer\<close> that the address is in the list
    already;
  \<^item> \<open>Edited new_list\<close>: \<^verbatim>\<open>query.edit_message_text(text=new_list, ...)\<close>, then
    \<^verbatim>\<open>query.answer()\<close>.
\<close>

datatype reply = NotRegistered | AlreadyAdded | Edited pystr

text \<open>
  \<^verbatim>\<open>add_mail\<close> takes the user from the callback query and the list identifier from its
  data, which the handler's pattern \<^verbatim>\<open>^add_mail_\d+$\<close> makes a number. The result is
  the exception that escapes (\<open>Inl\<close>) or the reply (\<open>Inr\<close>), and the database after the
  call. The exceptions of \<^verbatim>\<open>get_list\<close> are not caught. \<^verbatim>\<open>update_list\<close> is reached only
  with an identifier that \<^verbatim>\<open>get_list\<close> has found.
\<close>

definition add_mail :: "db \<Rightarrow> int \<Rightarrow> int \<Rightarrow> (error + reply) \<times> db" where
  "add_mail s user_id list_id =
     (case get_email s user_id of
        None \<Rightarrow> (Inr NotRegistered, s)
      | Some email \<Rightarrow>
          (case get_list s list_id of
             Inl err \<Rightarrow> (Inl err, s)
           | Inr list_text \<Rightarrow>
               if email \<in> set (splitlines list_text) then (Inr AlreadyAdded, s)
               else
                 let new_list = list_text @ [10] @ email
                 in (Inr (Edited new_list), update_list s list_id new_list)))"

text \<open>
  \<^verbatim>\<open>create_list\<close> ignores an empty inline query; otherwise it inserts the title as the
  text of a new list and answers with a button that carries the new identifier.
\<close>

definition create_list :: "db \<Rightarrow> pystr \<Rightarrow> int option \<times> db" where
  "create_list s list_title =
     (if list_title = [] then (None, s)
      else let (list_id, s') = insert_list s list_title in (Some list_id, s'))"

text \<open>
  \<^verbatim>\<open>register_email\<close> stores \<^verbatim>\<open>validation.email\<close>, the address as normalised by the
  external \<^verbatim>\<open>email_validator\<close>, which accepts no empty address and none with a control
  or separator character. \<open>one_line\<close> is the part of that guarantee used here: the
  string is not empty and holds no line boundary.
\<close>

definition one_line :: "pystr \<Rightarrow> bool" where
  "one_line x \<longleftrightarrow> x \<noteq> [] \<and> list_all (\<lambda>c. \<not> is_linebreak c) x"

text \<open>
  The entries of a stored list are the lines \<^verbatim>\<open>add_mail\<close> compares the address
  against (used for lists that exist only).
\<close>

definition entries :: "db \<Rightarrow> int \<Rightarrow> pystr list" where
  "entries s list_id =
     (case get_list s list_id of Inl err \<Rightarrow> [] | Inr list_text \<Rightarrow> splitlines list_text)"

subsection \<open>Sequences of updates\<close>

text \<open>
  The operations on the database: a registration (\<^verbatim>\<open>insert_user\<close>, which
  \<^verbatim>\<open>register_email\<close> calls with the normalised address once validation has passed), an
  inline query (\<^verbatim>\<open>create_list\<close>) and a press of the button (\<^verbatim>\<open>add_mail\<close>). \<open>run\<close>
  handles a sequence of them one after the other.
\<close>

datatype event = Register int pystr | CreateList pystr | AddMail int int

fun handle :: "db \<Rightarrow> event \<Rightarrow> db" where
  "handle s (Register user_id email) = insert_user s user_id email"
| "handle s (CreateList list_title) = snd (create_list s list_title)"
| "handle s (AddMail user_id list_id) = snd (add_mail s user_id list_id)"

definition run :: "db \<Rightarrow> event list \<Rightarrow> db" where
  "run s evs = foldl handle s evs"


text \<open>
  \<open>lf_adds_empty t\<close> says that a newline put after \<open>t\<close> opens an empty line: \<open>t\<close> is
  empty or ends in a boundary other than CR (after CR the newline completes CR LF).
  A text is \<open>neat\<close> when it has no line twice once the newline that \<^verbatim>\<open>add_mail\<close> puts
  after it is there: its lines are different and, if that newline opens an empty line,
  none of them is empty.
\<close>

definition lf_adds_empty :: "pystr \<Rightarrow> bool" where
  "lf_adds_empty t \<longleftrightarrow> t = [] \<or> (is_linebreak (last t) \<and> last t \<noteq> 13)"


text \<open>
  The title of a list is the text it was created with; the program keeps it as the
  beginning of the stored text. \<open>entries_after list_title s list_id\<close> are the entries of
  the list that come after the lines of its title, and \<open>created s evs\<close> are the lists that
  a sequence of operations creates (\<open>creates\<close> for one operation), each with its
  identifier and its title.
\<close>

definition entries_after :: "pystr \<Rightarrow> db \<Rightarrow> int \<Rightarrow> pystr list" where
  "entries_after list_title s list_id
     = drop (length (splitlines list_title)) (entries s list_id)"








subsection \<open>The storage form in the words of the specification\<close>

text \<open>
  The specification calls the stored text the newline-joined entry sequence. The program
  has no such function: it builds the text one \<^verbatim>\<open>f"{list_}\n{email}"\<close> at a time and
  reads it with \<^verbatim>\<open>splitlines\<close>. \<open>newline_join\<close> follows the specification's words
  (\<^verbatim>\<open>"\n".join(entries)\<close>), and \<open>no_newline\<close> is its condition on an entry.
\<close>

fun newline_join :: "pystr list \<Rightarrow> pystr" where
  "newline_join [] = []"
| "newline_join [x] = x"
| "newline_join (x # y # ys) = x @ 10 # newline_join (y # ys)"

definition no_newline :: "pystr \<Rightarrow> bool" where
  "no_newline x \<longleftrightarrow> 10 \<notin> set x"

subsection \<open>Handlers that run interleaved\<close>

text \<open>
  \<^verbatim>\<open>add_mail\<close> is a coroutine: Python runs it without interruption up to an
  \<^verbatim>\<open>await\<close>, where the event loop may resume another handler. All database calls of
  \<^verbatim>\<open>add_mail\<close> come before its first \<^verbatim>\<open>await\<close>. A task is one call of \<^verbatim>\<open>add_mail\<close>:
  not yet started, suspended at an \<^verbatim>\<open>await\<close> with \<open>n\<close> more to come, or finished.
  \<open>awaits\<close> counts the \<^verbatim>\<open>await\<close>s on the path taken: none when \<^verbatim>\<open>get_list\<close> raises, one
  for each alert, two (\<^verbatim>\<open>edit_message_text\<close>, \<^verbatim>\<open>answer\<close>) after an update.
\<close>

datatype task = Start int int | Suspended nat "error + reply" | Returned "error + reply"

fun awaits :: "error + reply \<Rightarrow> nat" where
  "awaits (Inl err) = 0"
| "awaits (Inr NotRegistered) = 1"
| "awaits (Inr AlreadyAdded) = 1"
| "awaits (Inr (Edited new_list)) = 2"

fun resume :: "db \<Rightarrow> task \<Rightarrow> task \<times> db" where
  "resume s (Start user_id list_id) =
     (let (r, s') = add_mail s user_id list_id
      in (if awaits r = 0 then Returned r else Suspended (awaits r - 1) r, s'))"
| "resume s (Suspended 0 r) = (Returned r, s)"
| "resume s (Suspended (Suc n) r) = (Suspended n r, s)"
| "resume s (Returned r) = (Returned r, s)"

text \<open>
  The event loop resumes one task at a time; a schedule names the task resumed at each
  step (a number that names no task does nothing).
\<close>

fun sched_step :: "db \<times> task list \<Rightarrow> nat \<Rightarrow> db \<times> task list" where
  "sched_step (s, ts) i =
     (if i < length ts then let (t', s') = resume s (ts ! i) in (s', ts[i := t'])
      else (s, ts))"

definition event_loop :: "db \<Rightarrow> task list \<Rightarrow> nat list \<Rightarrow> db \<times> task list" where
  "event_loop s ts sch = foldl sched_step (s, ts) sch"

text \<open>An upper bound on the resumptions a task still needs before it has finished.\<close>

fun needs :: "task \<Rightarrow> nat" where
  "needs (Start user_id list_id) = 3"
| "needs (Suspended n r) = Suc n"
| "needs (Returned r) = 0"

text \<open>The outcome a task has computed, once it has been started.\<close>

fun result_of :: "task \<Rightarrow> (error + reply) option" where
  "result_of (Start user_id list_id) = None"
| "result_of (Suspended n r) = Some r"
| "result_of (Returned r) = Some r"

text \<open>
  \<open>start_order n sch\<close> lists the tasks (of \<open>n\<close>) in the order in which the schedule first
  resumes them, and \<open>press calls i\<close> is the update that call \<open>i\<close> handles.
\<close>

definition start_order :: "nat \<Rightarrow> nat list \<Rightarrow> nat list" where
  "start_order n sch = foldl (\<lambda>js i. if i < n \<and> i \<notin> set js then js @ [i] else js) [] sch"

definition press :: "(int \<times> int) list \<Rightarrow> nat \<Rightarrow> event" where
  "press calls i = AddMail (fst (calls ! i)) (snd (calls ! i))"

subsection \<open>Example data\<close>

text \<open>
  Two addresses, two titles, the database after the first user registered, and the
  database after both users registered and both lists were created, each starting from a
  new database file.
\<close>

definition alice :: pystr where "alice = str ''a@x.com''"

definition bob :: pystr where "bob = str ''b@y.com''"

definition groceries :: pystr where "groceries = str ''groceries''"

definition party :: pystr where "party = str ''party''"

definition alice_db :: db where
  "alice_db = run DB_init [Register 1 alice]"

text \<open>
  A string that is no validated address (\<open>a\<close>, form feed, \<open>b\<close>), and three more databases:
  one where the first user is registered with that string, one with a list whose title is
  the address of the first user, and one with a list whose title ends in a newline.
\<close>

definition formfeed :: pystr where "formfeed = [97, 12, 98]"

definition formfeed_db :: db where
  "formfeed_db = run DB_init [Register 1 formfeed, Register 2 bob, CreateList groceries]"

definition named_db :: db where
  "named_db = run DB_init [Register 1 alice, Register 2 bob, CreateList alice]"

definition trailing_db :: db where
  "trailing_db = run DB_init [Register 1 alice, Register 2 bob, CreateList (groceries @ [10])]"

definition shop_db :: db where
  "shop_db =
     run DB_init [Register 1 alice, Register 2 bob, CreateList groceries, CreateList party]"

section \<open>Properties of splitlines\<close>

declare splitlines.simps(2) [simp del]

lemma lf_is_break: "is_linebreak 10"
  by (simp add: is_linebreak_def)

lemma splitlines_one_line: "one_line x \<Longrightarrow> splitlines x = [x]"
proof -
  assume a: "one_line x"
  then obtain c cs where x: "x = c # cs" by (cases x) (auto simp: one_line_def)
  from a have "\<forall>y\<in>set x. \<not> is_linebreak y" by (simp add: one_line_def list_all_iff)
  then have "takeWhile (\<lambda>y. \<not> is_linebreak y) x = x"
    and "dropWhile (\<lambda>y. \<not> is_linebreak y) x = []"
    by simp_all
  then show ?thesis unfolding x by (simp add: splitlines.simps(2))
qed

lemma splitlines_at_break:
  assumes "list_all (\<lambda>c. \<not> is_linebreak c) l" and "is_linebreak b"
  shows "splitlines (l @ b # r) = l # splitlines (skip_break b r)"
proof -
  from assms have t: "takeWhile (\<lambda>y. \<not> is_linebreak y) (l @ b # r) = l"
    and d: "dropWhile (\<lambda>y. \<not> is_linebreak y) (l @ b # r) = b # r"
    by (simp_all add: list_all_iff)
  obtain c cs where x: "l @ b # r = c # cs" by (cases l) auto
  show ?thesis
    using t d unfolding x by (simp add: splitlines.simps(2))
qed

text \<open>A text has no line boundary, or a first one.\<close>

lemma first_break_cases:
  obtains (one) "list_all (\<lambda>c. \<not> is_linebreak c) t"
  | (brk) l b r where "t = l @ b # r" and "list_all (\<lambda>c. \<not> is_linebreak c) l"
      and "is_linebreak b"
proof (cases "dropWhile (\<lambda>y. \<not> is_linebreak y) t")
  case Nil
  then have "list_all (\<lambda>c. \<not> is_linebreak c) t" by (simp add: list_all_iff)
  then show ?thesis by (rule one)
next
  case (Cons b r)
  have "t = takeWhile (\<lambda>y. \<not> is_linebreak y) t @ b # r"
    using Cons takeWhile_dropWhile_id [of "\<lambda>y. \<not> is_linebreak y" t] by simp
  moreover have "list_all (\<lambda>c. \<not> is_linebreak c) (takeWhile (\<lambda>y. \<not> is_linebreak y) t)"
    by (auto simp: list_all_iff dest: set_takeWhileD)
  moreover have "is_linebreak b"
    using Cons hd_dropWhile [of "\<lambda>y. \<not> is_linebreak y" t] by auto
  ultimately show ?thesis by (rule brk)
qed

lemma skip_break_append: "r \<noteq> [] \<Longrightarrow> skip_break b (r @ u) = skip_break b r @ u"
  by (cases r) (simp_all add: skip_break_def)

text \<open>
  What \<^verbatim>\<open>f"{list_}\n{email}"\<close> does to the lines: the old lines stay, an empty line
  comes in where the old text was empty or ended in a boundary, and the lines of what is
  appended follow; a validated address is one line, the last.
\<close>

lemma splitlines_append_lf_any:
  "splitlines (t @ 10 # u) = splitlines t @ (if lf_adds_empty t then [[]] else []) @ splitlines u"
proof (induction t rule: length_induct)
  case (1 t)
  have lfe: "splitlines (10 # u) = [] # splitlines u"
    using splitlines_at_break [of "[]" 10 u] lf_is_break by (simp add: skip_break_def)
  show ?case
  proof (cases t rule: first_break_cases)
    case one
    show ?thesis
    proof (cases "t = []")
      case True
      then show ?thesis using lfe by (simp add: lf_adds_empty_def)
    next
      case False
      with one have ol: "one_line t" by (simp add: one_line_def)
      from one False have "\<not> is_linebreak (last t)" by (simp add: list_all_iff)
      with False have "\<not> lf_adds_empty t" by (simp add: lf_adds_empty_def)
      moreover have "splitlines (t @ 10 # u) = t # splitlines u"
        using splitlines_at_break [OF one lf_is_break, of u] by (simp add: skip_break_def)
      ultimately show ?thesis
        using splitlines_one_line [OF ol] by simp
    qed
  next
    case (brk l b r)
    have st: "splitlines t = l # splitlines (skip_break b r)"
      unfolding brk(1) by (rule splitlines_at_break [OF brk(2,3)])
    have sa: "splitlines (t @ 10 # u) = l # splitlines (skip_break b (r @ 10 # u))"
      unfolding brk(1) using splitlines_at_break [OF brk(2,3), of "r @ 10 # u"] by simp
    show ?thesis
    proof (cases "r = []")
      case True
      then have lt: "last t = b" by (simp add: brk(1))
      show ?thesis
      proof (cases "b = 13")
        case True
        with lt brk(1) have "\<not> lf_adds_empty t" by (simp add: lf_adds_empty_def)
        then show ?thesis using st sa \<open>r = []\<close> True
          by (simp add: skip_break_def)
      next
        case False
        with lt brk(1,3) have "lf_adds_empty t" by (simp add: lf_adds_empty_def)
        then show ?thesis using st sa \<open>r = []\<close> False lfe
          by (simp add: skip_break_def)
      qed
    next
      case False
      let ?r' = "skip_break b r"
      have "length ?r' \<le> length r" by (simp add: skip_break_def)
      then have len: "length ?r' < length t"
        by (simp add: brk(1))
      have eq: "skip_break b (r @ 10 # u) = ?r' @ 10 # u"
        by (rule skip_break_append [OF False])
      have same: "lf_adds_empty ?r' = lf_adds_empty t"
      proof (cases "?r' = r")
        case True
        then show ?thesis using False by (simp add: lf_adds_empty_def brk(1))
      next
        case neq: False
        then have b: "b = 13" and r: "?r' = tl r" and h: "hd r = 10"
          using False by (auto simp: skip_break_def split: list.splits if_splits)
        show ?thesis
        proof (cases "tl r = []")
          case True
          with False h have "r = [10]" by (cases r) auto
          then show ?thesis
            using r True lf_is_break by (simp add: lf_adds_empty_def brk(1))
        next
          case False
          then have "last (tl r) = last r" by (cases r) auto
          then show ?thesis
            using r False \<open>r \<noteq> []\<close> by (simp add: lf_adds_empty_def brk(1))
        qed
      qed
      from 1 len have "splitlines (?r' @ 10 # u)
          = splitlines ?r' @ (if lf_adds_empty ?r' then [[]] else []) @ splitlines u"
        by blast
      then show ?thesis using st sa eq same by simp
    qed
  qed
qed

lemma splitlines_append_lf:
  "one_line e \<Longrightarrow>
   splitlines (t @ 10 # e) = splitlines t @ (if lf_adds_empty t then [[]] else []) @ [e]"
  by (simp add: splitlines_append_lf_any splitlines_one_line)



lemma one_line_last: "one_line e \<Longrightarrow> \<not> lf_adds_empty (t @ 10 # e)"
  by (simp add: one_line_def lf_adds_empty_def list_all_iff)


text \<open>
  On a text that holds an entry already, the program's \<^verbatim>\<open>f"{list_}\n{email}"\<close> is the
  specification's join of the entries with the address added.
\<close>

lemma newline_join_snoc: "es \<noteq> [] \<Longrightarrow> newline_join (es @ [e]) = newline_join es @ 10 # e"
  by (induction es rule: newline_join.induct) auto

section \<open>The database methods and the cases of add_mail\<close>

lemma map_of_replace:
  "map_of (map (\<lambda>r. if fst r = k then (fst r, v) else r) rows) k' =
     (if k' = k then (case map_of rows k of None \<Rightarrow> None | Some x \<Rightarrow> Some v)
      else map_of rows k')"
  by (induction rows) (auto split: option.splits)

lemma get_list_update_list:
  "get_list (update_list s k v) k' =
     (if k' = k then (case get_list s k of Inl err \<Rightarrow> Inl err | Inr t \<Rightarrow> Inr v)
      else get_list s k')"
  by (simp add: get_list_def update_list_def map_of_replace split: option.splits)

lemma get_email_update_list: "get_email (update_list s k v) u = get_email s u"
  by (simp add: get_email_def update_list_def)

lemma keys_update_list: "map fst (list_tbl (update_list s k v)) = map fst (list_tbl s)"
  by (simp add: update_list_def comp_def if_distrib cong: if_cong)

text \<open>The four ways through \<^verbatim>\<open>add_mail\<close>.\<close>

lemma add_mail_cases:
  obtains (unregistered) "get_email s u = None" and "add_mail s u l = (Inr NotRegistered, s)"
  | (raised) e err where "get_email s u = Some e" and "get_list s l = Inl err"
      and "add_mail s u l = (Inl err, s)"
  | (present) e t where "get_email s u = Some e" and "get_list s l = Inr t"
      and "e \<in> set (splitlines t)" and "add_mail s u l = (Inr AlreadyAdded, s)"
  | (added) e t where "get_email s u = Some e" and "get_list s l = Inr t"
      and "e \<notin> set (splitlines t)"
      and "add_mail s u l = (Inr (Edited (t @ 10 # e)), update_list s l (t @ 10 # e))"
proof (cases "get_email s u")
  case None
  then show ?thesis using unregistered by (simp add: add_mail_def)
next
  case (Some e)
  show ?thesis
  proof (cases "get_list s l")
    case (Inl err)
    with Some show ?thesis using raised [of e err] by (simp add: add_mail_def)
  next
    case (Inr t)
    with Some show ?thesis using present [of e t] added [of e t]
      by (cases "e \<in> set (splitlines t)") (simp_all add: add_mail_def Let_def)
  qed
qed

lemma add_mail_added:
  "get_email s u = Some e \<Longrightarrow> get_list s l = Inr t \<Longrightarrow> e \<notin> set (splitlines t) \<Longrightarrow>
   add_mail s u l = (Inr (Edited (t @ 10 # e)), update_list s l (t @ 10 # e))"
  by (simp add: add_mail_def Let_def)


text \<open>The entries a list had are its first entries after \<^verbatim>\<open>add_mail\<close>, whatever it did.\<close>

lemma entries_add_mail_prefix:
  "prefix (entries s l) (entries (snd (add_mail s u l)) l)"
proof (rule add_mail_cases [of s u l])
  fix e t
  assume "get_list s l = Inr t"
    and "add_mail s u l = (Inr (Edited (t @ 10 # e)), update_list s l (t @ 10 # e))"
  then show ?thesis
    by (simp add: entries_def get_list_update_list splitlines_append_lf_any)
qed simp_all

text \<open>The key SQLite gives a new row is above every key of the table.\<close>

lemma lastrowid_greater: "j \<in> fst ` set rows \<Longrightarrow> j < lastrowid rows"
proof -
  assume j: "j \<in> fst ` set rows"
  then have "rows \<noteq> []" by auto
  moreover from j have "j \<le> Max (set (map fst rows))" by (intro Max_ge) auto
  ultimately show ?thesis by (simp add: lastrowid_def)
qed

lemma lastrowid_fresh: "map_of rows (lastrowid rows) = None"
  using lastrowid_greater [of "lastrowid rows" rows] by (auto simp: map_of_eq_None_iff)

lemma get_list_insert_list:
  "get_list (snd (insert_list s t)) l
     = (if sqlite_int l \<and> l = lastrowid (list_tbl s) then Inr t else get_list s l)"
  by (auto simp: insert_list_def get_list_def Let_def map_add_def lastrowid_fresh
      split: option.splits)

subsection \<open>The example database\<close>

lemma shop_db_eq:
  "shop_db = \<lparr>user_tbl = [(1, alice), (2, bob)], list_tbl = [(1, groceries), (2, party)]\<rparr>"
  by (simp add: shop_db_def run_def create_list_def insert_list_def lastrowid_def
      insert_user_def DB_init_def groceries_def party_def str_def)

lemma shop_db_lookup:
  "get_email shop_db 1 = Some alice" "get_email shop_db 2 = Some bob"
  "get_email shop_db 3 = None"
  "get_list shop_db 1 = Inr groceries" "get_list shop_db 2 = Inr party"
  by (simp_all add: shop_db_eq get_email_def get_list_def sqlite_int_def)

lemma example_lines:
  "one_line alice" "one_line bob" "one_line groceries" "alice \<noteq> bob"
  "alice \<noteq> groceries" "bob \<noteq> groceries"
  by (simp_all add: one_line_def alice_def bob_def groceries_def str_def is_linebreak_def)

lemma alice_db_eq: "alice_db = \<lparr>user_tbl = [(1, alice)], list_tbl = []\<rparr>"
  by (simp add: alice_db_def run_def insert_user_def DB_init_def)

lemma groceries_lines:
  "splitlines groceries = [groceries]" "\<not> lf_adds_empty groceries"
  "alice \<notin> set (splitlines groceries)" "bob \<notin> set (splitlines groceries)"
proof -
  show l: "splitlines groceries = [groceries]"
    by (rule splitlines_one_line) (rule example_lines)
  show "\<not> lf_adds_empty groceries"
    by (simp add: lf_adds_empty_def groceries_def str_def is_linebreak_def)
  show "alice \<notin> set (splitlines groceries)" "bob \<notin> set (splitlines groceries)"
    using example_lines by (simp_all add: l)
qed

text \<open>The definitions that evaluate a run on the example data.\<close>

lemmas run_defs = run_def create_list_def insert_list_def DB_init_def insert_user_def
  add_mail_def get_email_def get_list_def sqlite_int_def lastrowid_def entries_def
  entries_after_def update_list_def Let_def splitlines.simps(2) is_linebreak_def
  skip_break_def alice_def bob_def groceries_def str_def formfeed_def

section \<open>Rejections\<close>

text \<open>
  C5. A user without a registered address gets the alert that asks to register, and the
  database after \<^verbatim>\<open>add_mail\<close> is the database before it: no list and no user row has
  changed.
\<close>

theorem add_mail_not_registered:
  "get_email s user_id = None \<Longrightarrow> add_mail s user_id list_id = (Inr NotRegistered, s)"
  by (simp add: add_mail_def)

theorem add_mail_not_registered_witness:
  "get_email shop_db 3 = None \<and> add_mail shop_db 3 1 = (Inr NotRegistered, shop_db)
   \<and> get_list shop_db 1 = Inr groceries"
  using add_mail_not_registered [of shop_db 3 1] by (simp add: shop_db_lookup)

text \<open>
  C6, as the program has it. For a registered user and a list identifier that is not in
  the table, \<^verbatim>\<open>get_list\<close> raises: its \<^verbatim>\<open>ValueError\<close> when the identifier fits SQLite's
  signed 64-bit integer, and before that the \<^verbatim>\<open>OverflowError\<close> of \<^verbatim>\<open>cursor.execute\<close>
  when it does not (the pattern of the handler lets any number of digits through).
  \<^verbatim>\<open>add_mail\<close> catches neither, so the exception escapes the handler, no reply is sent,
  and the database is unchanged.
\<close>

theorem add_mail_unknown_list:
  "get_email s user_id = Some email \<Longrightarrow> list_id \<notin> fst ` set (list_tbl s) \<Longrightarrow>
   add_mail s user_id list_id
     = (Inl (if sqlite_int list_id then ValueError list_id else OverflowError), s)"
  by (simp add: add_mail_def get_list_def map_of_eq_None_iff [THEN iffD2])

theorem add_mail_unknown_list_witness:
  "get_email shop_db 1 = Some alice \<and> 999999 \<notin> fst ` set (list_tbl shop_db)
   \<and> add_mail shop_db 1 999999 = (Inl (ValueError 999999), shop_db)
   \<and> 2 ^ 63 \<notin> fst ` set (list_tbl shop_db)
   \<and> add_mail shop_db 1 (2 ^ 63) = (Inl OverflowError, shop_db)"
proof -
  have "999999 \<notin> fst ` set (list_tbl shop_db)" and "2 ^ 63 \<notin> fst ` set (list_tbl shop_db)"
    by (simp_all add: shop_db_eq)
  with add_mail_unknown_list [of shop_db 1 alice 999999]
    add_mail_unknown_list [of shop_db 1 alice "2 ^ 63"]
  show ?thesis
    by (simp add: shop_db_lookup sqlite_int_def)
qed

text \<open>
  C6 as stated asks for a reply value that is not an exception. For user 1 the outcome
  of \<^verbatim>\<open>add_mail\<close> is on the exception side, both for the identifier 999999 and for
  \<open>2 ^ 63\<close>, where the exception is not the one of \<^verbatim>\<open>get_list\<close> itself.
\<close>

theorem unknown_list_is_exception:
  "isl (fst (add_mail shop_db 1 999999))
   \<and> fst (add_mail shop_db 1 999999) = Inl (ValueError 999999)
   \<and> isl (fst (add_mail shop_db 1 (2 ^ 63)))
   \<and> fst (add_mail shop_db 1 (2 ^ 63)) = Inl OverflowError"
  by (simp add: add_mail_def shop_db_eq get_email_def get_list_def sqlite_int_def)

section \<open>Registration\<close>

text \<open>
  C8. Registering twice leaves the second address as the user's address; the user has
  exactly one row afterwards, and a single registration stores its address.
  \<^verbatim>\<open>insert_user\<close> has no failing branch.
\<close>

theorem register_last_write_wins:
  "get_email (insert_user (insert_user s user_id email1) user_id email2) user_id = Some email2
   \<and> filter (\<lambda>r. fst r = user_id)
        (user_tbl (insert_user (insert_user s user_id email1) user_id email2))
      = [(user_id, email2)]
   \<and> get_email (insert_user s user_id email1) user_id = Some email1"
proof -
  have a: "map_of (filter (\<lambda>r. fst r \<noteq> k) rows) k = None" for k :: int and rows :: table
    by (induction rows) auto
  have b: "filter (\<lambda>r. fst r = k) (filter (\<lambda>r. fst r \<noteq> k) rows) = []"
    for k :: int and rows :: table
    by (induction rows) auto
  show ?thesis
    by (simp add: get_email_def insert_user_def map_add_def a b)
qed

section \<open>What add_mail leaves alone\<close>

text \<open>
  C10. Whatever \<^verbatim>\<open>add_mail\<close> answers, the user table is the same afterwards, the list
  table has the same identifiers in the same order and every other list has the same
  text. The program keeps the title as the first lines of the list's text: the entries
  the list had are its first entries afterwards, so the lines of its title are unchanged
  and still come first, and the stored text only grows at its end.
\<close>

theorem add_mail_frame:
  "user_tbl (snd (add_mail s user_id list_id)) = user_tbl s
   \<and> map fst (list_tbl (snd (add_mail s user_id list_id))) = map fst (list_tbl s)
   \<and> (l' \<noteq> list_id \<longrightarrow> get_list (snd (add_mail s user_id list_id)) l' = get_list s l')
   \<and> prefix (entries s list_id) (entries (snd (add_mail s user_id list_id)) list_id)
   \<and> (prefix (splitlines list_title) (entries s list_id) \<longrightarrow>
        prefix (splitlines list_title) (entries (snd (add_mail s user_id list_id)) list_id))
   \<and> (get_list s list_id = Inr t \<longrightarrow>
        (case get_list (snd (add_mail s user_id list_id)) list_id of
           Inl err \<Rightarrow> False | Inr t' \<Rightarrow> prefix t t'))"
proof -
  have p: "prefix (entries s list_id) (entries (snd (add_mail s user_id list_id)) list_id)"
    by (rule entries_add_mail_prefix)
  then have q: "prefix (splitlines list_title) (entries s list_id) \<longrightarrow>
        prefix (splitlines list_title) (entries (snd (add_mail s user_id list_id)) list_id)"
    by auto
  have "user_tbl (snd (add_mail s user_id list_id)) = user_tbl s
   \<and> map fst (list_tbl (snd (add_mail s user_id list_id))) = map fst (list_tbl s)
   \<and> (l' \<noteq> list_id \<longrightarrow> get_list (snd (add_mail s user_id list_id)) l' = get_list s l')
   \<and> (get_list s list_id = Inr t \<longrightarrow>
        (case get_list (snd (add_mail s user_id list_id)) list_id of
           Inl err \<Rightarrow> False | Inr t' \<Rightarrow> prefix t t'))"
  proof (rule add_mail_cases [of s user_id list_id])
    fix e t0
    assume "get_email s user_id = Some e" and "get_list s list_id = Inr t0"
      and "e \<notin> set (splitlines t0)"
      and "add_mail s user_id list_id
        = (Inr (Edited (t0 @ 10 # e)), update_list s list_id (t0 @ 10 # e))"
    then show ?thesis
      by (simp add: get_list_update_list keys_update_list) (simp add: update_list_def)
  qed auto
  with p q show ?thesis by blast
qed

theorem add_mail_frame_witness:
  "(2::int) \<noteq> 1 \<and> get_list shop_db 1 = Inr groceries
   \<and> get_list (snd (add_mail shop_db 1 1)) 2 = Inr party
   \<and> user_tbl (snd (add_mail shop_db 1 1)) = [(1, alice), (2, bob)]
   \<and> prefix (splitlines groceries) (entries shop_db 1)
   \<and> entries shop_db 1 = [groceries]
   \<and> entries (snd (add_mail shop_db 1 1)) 1 = [groceries, alice]
   \<and> prefix (splitlines groceries) (entries (snd (add_mail shop_db 1 1)) 1)
   \<and> (case get_list (snd (add_mail shop_db 1 1)) 1 of
         Inl err \<Rightarrow> False | Inr t' \<Rightarrow> prefix groceries t')"
proof -
  have en: "entries shop_db 1 = [groceries]"
    by (simp add: entries_def shop_db_lookup groceries_lines)
  have a: "add_mail shop_db 1 1
      = (Inr (Edited (groceries @ 10 # alice)), update_list shop_db 1 (groceries @ 10 # alice))"
    by (rule add_mail_added [OF shop_db_lookup(1,4) groceries_lines(3)])
  have "splitlines (groceries @ 10 # alice) = [groceries, alice]"
    using splitlines_append_lf [OF example_lines(1), of groceries] groceries_lines by simp
  then have en': "entries (snd (add_mail shop_db 1 1)) 1 = [groceries, alice]"
    by (simp add: a entries_def get_list_update_list shop_db_lookup)
  have u: "user_tbl shop_db = [(1, alice), (2, bob)]" by (simp add: shop_db_eq)
  show ?thesis
    using add_mail_frame [of shop_db 1 1 2 groceries groceries] en en' u
    by (simp add: shop_db_lookup groceries_lines)
qed

section \<open>The storage form and its lines\<close>

text \<open>
  C9, as the program has it. When no entry holds a line boundary of \<^verbatim>\<open>splitlines\<close> (any
  of the ten, not the newline alone) and the last entry is not empty, joining the entries
  by newline and splitting the text into lines gives the entries back, in order.
\<close>

theorem splitlines_newline_join:
  "list_all (list_all (\<lambda>c. \<not> is_linebreak c)) es \<Longrightarrow> es = [] \<or> last es \<noteq> [] \<Longrightarrow>
   splitlines (newline_join es) = es"
proof (induction es rule: newline_join.induct)
  case 1
  show ?case by simp
next
  case (2 x)
  then have "one_line x" by (simp add: one_line_def)
  then show ?case by (simp add: splitlines_one_line)
next
  case (3 x y ys)
  from "3.prems" have x: "list_all (\<lambda>c. \<not> is_linebreak c) x" by simp
  have "splitlines (x @ 10 # newline_join (y # ys)) = x # splitlines (newline_join (y # ys))"
    using splitlines_at_break [OF x lf_is_break, of "newline_join (y # ys)"]
    by (simp add: skip_break_def)
  with 3 show ?case by simp
qed

theorem splitlines_newline_join_witness:
  "list_all (list_all (\<lambda>c. \<not> is_linebreak c)) [alice, bob] \<and> last [alice, bob] \<noteq> []
   \<and> splitlines (newline_join [alice, bob]) = [alice, bob]"
  using splitlines_newline_join [of "[alice, bob]"] example_lines
  by (simp add: one_line_def)

text \<open>
  C9 as stated asks only that the entries hold no newline. The one-entry sequence with
  the empty string comes back as no entry at all, and an entry with a form feed (no
  newline in it) comes back as two.
\<close>

theorem roundtrip_loses_entries:
  "list_all no_newline [[]] \<and> splitlines (newline_join [[]]) = []
   \<and> list_all no_newline [[97, 12, 98]]
   \<and> splitlines (newline_join [[97, 12, 98]]) = [[97], [98]]"
  by (simp add: no_newline_def splitlines.simps(2) is_linebreak_def skip_break_def)

section \<open>Appending an address\<close>

text \<open>
  C7, as the program has it. For a registered user whose validated address is not among
  the lines of an existing list, where the stored text is not empty and does not end in
  a line boundary (a final CR aside), \<^verbatim>\<open>add_mail\<close> succeeds: it writes the old text
  followed by a newline and the address with \<^verbatim>\<open>update_list\<close>, that text is what
  \<^verbatim>\<open>get_list\<close> returns afterwards and what the reply carries, and the entries of the
  list are the old entries followed by the address.
\<close>

theorem add_mail_appends:
  assumes "get_email s user_id = Some email" and "one_line email"
    and "get_list s list_id = Inr t" and "\<not> lf_adds_empty t"
    and "email \<notin> set (splitlines t)"
  shows "add_mail s user_id list_id
           = (Inr (Edited (t @ 10 # email)), update_list s list_id (t @ 10 # email))
         \<and> get_list (snd (add_mail s user_id list_id)) list_id = Inr (t @ 10 # email)
         \<and> entries (snd (add_mail s user_id list_id)) list_id = entries s list_id @ [email]"
proof -
  from assms(1,3,5) have a: "add_mail s user_id list_id
      = (Inr (Edited (t @ 10 # email)), update_list s list_id (t @ 10 # email))"
    by (rule add_mail_added)
  have g: "get_list (update_list s list_id (t @ 10 # email)) list_id = Inr (t @ 10 # email)"
    using assms(3) by (simp add: get_list_update_list)
  from assms(2,4) have "splitlines (t @ 10 # email) = splitlines t @ [email]"
    by (simp add: splitlines_append_lf)
  with a g assms(3) show ?thesis by (simp add: entries_def)
qed

theorem add_mail_appends_witness:
  "get_email shop_db 1 = Some alice \<and> one_line alice \<and> get_list shop_db 1 = Inr groceries
   \<and> \<not> lf_adds_empty groceries \<and> alice \<notin> set (splitlines groceries)
   \<and> entries shop_db 1 = [groceries]
   \<and> entries (snd (add_mail shop_db 1 1)) 1 = [groceries, alice]"
proof -
  have en: "entries shop_db 1 = [groceries]"
    by (simp add: entries_def shop_db_lookup groceries_lines)
  show ?thesis
    using add_mail_appends [OF shop_db_lookup(1) example_lines(1) shop_db_lookup(4)
        groceries_lines(2,3)]
      example_lines(1) groceries_lines(2,3) en
    by (auto simp: shop_db_lookup)
qed

text \<open>
  C7 as stated has no condition on the stored text. A list created with a title that
  ends in a newline has the one entry \<open>groceries\<close>; after user 1 is added its entries are
  \<open>groceries\<close>, the empty line and the address, not the old entries followed by the
  address.
\<close>

theorem trailing_newline_title:
  "get_email (run DB_init [Register 1 alice, CreateList (groceries @ [10])]) 1 = Some alice
   \<and> entries (run DB_init [Register 1 alice, CreateList (groceries @ [10])]) 1 = [groceries]
   \<and> alice \<notin> set (entries (run DB_init [Register 1 alice, CreateList (groceries @ [10])]) 1)
   \<and> entries
        (snd (add_mail (run DB_init [Register 1 alice, CreateList (groceries @ [10])]) 1 1)) 1
       = [groceries, [], alice]"
proof -
  have s: "run DB_init [Register 1 alice, CreateList (groceries @ [10])]
      = \<lparr>user_tbl = [(1, alice)], list_tbl = [(1, groceries @ [10])]\<rparr>"
    by (simp add: run_def create_list_def insert_list_def lastrowid_def
      insert_user_def DB_init_def)
  have l: "splitlines (groceries @ [10]) = [groceries]"
    using splitlines_at_break [of groceries 10 "[]"] example_lines(3) lf_is_break
    by (simp add: one_line_def skip_break_def)
  have l2: "splitlines ((groceries @ [10]) @ 10 # alice) = [groceries, [], alice]"
    using splitlines_append_lf [OF example_lines(1), of "groceries @ [10]"] l lf_is_break
    by (simp add: lf_adds_empty_def)
  have g: "get_list \<lparr>user_tbl = [(1, alice)], list_tbl = [(1, groceries @ [10])]\<rparr> 1
      = Inr (groceries @ [10])"
    by (simp add: get_list_def sqlite_int_def)
  have e: "get_email \<lparr>user_tbl = [(1, alice)], list_tbl = [(1, groceries @ [10])]\<rparr> 1
      = Some alice"
    by (simp add: get_email_def)
  have m: "alice \<notin> set (splitlines (groceries @ [10]))"
    using example_lines by (simp add: l)
  show ?thesis
    unfolding s using add_mail_added [OF e g m] e g l l2 m
    by (simp add: entries_def get_list_update_list)
qed




section \<open>Creating a list\<close>

lemma entries_after_appended:
  assumes "get_list s l = Inr (t @ 10 # e)" and "one_line e" and "\<not> lf_adds_empty t"
  shows "entries_after t s l = [e]"
  using assms by (simp add: entries_after_def entries_def splitlines_append_lf)

text \<open>
  C2, as the program has it. For a non-empty title, \<^verbatim>\<open>create_list\<close> returns an
  identifier above every identifier of the table and below the next one to be given,
  and stores the title as the text of the new list with nothing after it: no entry
  follows the title. Where the identifier fits SQLite's 64-bit integer (the press of the
  button binds it as a parameter), the first \<^verbatim>\<open>add_mail\<close> of a registered address that
  is not a line of the title replies with the title, a newline and the address; when the
  address is validated and the title does not end in a line boundary (a final CR aside),
  the entries after the title are then exactly that address.
\<close>

theorem create_list_stores_title:
  assumes "list_title \<noteq> []"
  shows "fst (create_list s list_title) = Some (lastrowid (list_tbl s))
    \<and> (\<forall>j \<in> fst ` set (list_tbl s). j < lastrowid (list_tbl s))
    \<and> lastrowid (list_tbl s) < lastrowid (list_tbl (snd (create_list s list_title)))
    \<and> map_of (list_tbl (snd (create_list s list_title))) (lastrowid (list_tbl s))
        = Some list_title
    \<and> (sqlite_int (lastrowid (list_tbl s)) \<longrightarrow>
         get_list (snd (create_list s list_title)) (lastrowid (list_tbl s)) = Inr list_title
         \<and> entries_after list_title (snd (create_list s list_title)) (lastrowid (list_tbl s))
             = [])
    \<and> (sqlite_int (lastrowid (list_tbl s)) \<and> get_email s user_id = Some email
          \<and> email \<notin> set (splitlines list_title) \<longrightarrow>
         fst (add_mail (snd (create_list s list_title)) user_id (lastrowid (list_tbl s)))
           = Inr (Edited (list_title @ 10 # email))
         \<and> (one_line email \<and> \<not> lf_adds_empty list_title \<longrightarrow>
              entries_after list_title
                (snd (add_mail (snd (create_list s list_title)) user_id
                   (lastrowid (list_tbl s))))
                (lastrowid (list_tbl s))
              = [email]))"
proof -
  let ?i = "lastrowid (list_tbl s)"
  let ?s' = "snd (insert_list s list_title)"
  from assms have c: "create_list s list_title = (Some ?i, ?s')"
    by (simp add: create_list_def insert_list_def Let_def)
  have m: "map_of (list_tbl ?s') ?i = Some list_title"
    by (simp add: insert_list_def Let_def map_add_def lastrowid_fresh)
  have "?i \<in> fst ` set (list_tbl ?s')" by (simp add: insert_list_def Let_def)
  then have inc: "?i < lastrowid (list_tbl ?s')" by (rule lastrowid_greater)
  have u: "get_email ?s' user_id = get_email s user_id"
    by (simp add: get_email_def insert_list_def Let_def)
  have g: "get_list ?s' ?i = Inr list_title" if "sqlite_int ?i"
    using that by (simp add: get_list_insert_list)
  have ea: "entries_after list_title ?s' ?i = []" if "sqlite_int ?i"
    using g [OF that] by (simp add: entries_after_def entries_def)
  have a: "add_mail ?s' user_id ?i
      = (Inr (Edited (list_title @ 10 # email)), update_list ?s' ?i (list_title @ 10 # email))"
    if "sqlite_int ?i" and "get_email s user_id = Some email"
      and "email \<notin> set (splitlines list_title)"
    using add_mail_added [OF _ g [OF that(1)] that(3), of user_id] that(2) u by simp
  have l: "entries_after list_title (snd (add_mail ?s' user_id ?i)) ?i = [email]"
    if "sqlite_int ?i" and "get_email s user_id = Some email"
      and "email \<notin> set (splitlines list_title)"
      and "one_line email" and "\<not> lf_adds_empty list_title"
  proof -
    have "get_list (snd (add_mail ?s' user_id ?i)) ?i = Inr (list_title @ 10 # email)"
      using a [OF that(1,2,3)] g [OF that(1)] by (simp add: get_list_update_list)
    then show ?thesis using that(4,5) by (rule entries_after_appended)
  qed
  show ?thesis
    unfolding c fst_conv snd_conv using m inc g ea a l by (simp add: lastrowid_greater)
qed

theorem create_list_stores_title_witness:
  "groceries \<noteq> [] \<and> sqlite_int (lastrowid (list_tbl alice_db))
   \<and> get_email alice_db 1 = Some alice
   \<and> alice \<notin> set (splitlines groceries) \<and> one_line alice \<and> \<not> lf_adds_empty groceries
   \<and> fst (create_list alice_db groceries) = Some 1
   \<and> 1 < lastrowid (list_tbl (snd (create_list alice_db groceries)))
   \<and> get_list (snd (create_list alice_db groceries)) 1 = Inr groceries
   \<and> entries_after groceries (snd (create_list alice_db groceries)) 1 = []
   \<and> fst (add_mail (snd (create_list alice_db groceries)) 1 1)
        = Inr (Edited (groceries @ 10 # alice))
   \<and> entries_after groceries (snd (add_mail (snd (create_list alice_db groceries)) 1 1)) 1
        = [alice]"
proof -
  have i: "lastrowid (list_tbl alice_db) = 1" by (simp add: alice_db_eq lastrowid_def)
  have r: "sqlite_int (lastrowid (list_tbl alice_db))" by (simp add: i sqlite_int_def)
  have e: "get_email alice_db 1 = Some alice" by (simp add: alice_db_eq get_email_def)
  have n: "groceries \<noteq> []" using example_lines(3) by (simp add: one_line_def)
  show ?thesis
    using create_list_stores_title [OF n, of alice_db 1 alice] r e n groceries_lines(2,3)
      example_lines(1)
    by (simp add: i)
qed


text \<open>
  C2 as stated holds for every title and every first successful append. An empty title
  creates nothing and returns no identifier; after a title that ends in a newline the
  first append leaves an empty line before the address; and a registered string with a
  form feed in it comes back as two entries.
\<close>

theorem create_list_counterexamples:
  "create_list alice_db [] = (None, alice_db)
   \<and> get_list trailing_db 1 = Inr (groceries @ [10])
   \<and> fst (add_mail trailing_db 1 1) = Inr (Edited ((groceries @ [10]) @ 10 # alice))
   \<and> entries_after (groceries @ [10]) (snd (add_mail trailing_db 1 1)) 1 = [[], alice]
   \<and> get_list formfeed_db 1 = Inr groceries
   \<and> get_email formfeed_db 1 = Some formfeed
   \<and> fst (add_mail formfeed_db 1 1) = Inr (Edited (groceries @ 10 # formfeed))
   \<and> entries_after groceries (snd (add_mail formfeed_db 1 1)) 1 = [[97], [98]]"
  by (simp add: trailing_db_def formfeed_db_def alice_db_def run_defs)

section \<open>Lists without duplicates\<close>

subsection \<open>The entries after the title\<close>













subsection \<open>All lines of neat texts\<close>







subsection \<open>The invariant\<close>






section \<open>Presses of the button that run interleaved\<close>

subsection \<open>The event loop\<close>

lemma awaits_le: "awaits r \<le> 2"
  by (cases r rule: awaits.cases) simp_all

lemma needs_resume: "needs (fst (resume s t)) \<le> needs t - 1"
proof (cases t)
  case (Start u l)
  obtain r s' where a: "add_mail s u l = (r, s')" by (cases "add_mail s u l")
  show ?thesis using awaits_le [of r] by (simp add: Start a)
next
  case (Suspended n r)
  then show ?thesis by (cases n) simp_all
next
  case (Returned r)
  then show ?thesis by simp
qed

lemma resume_started:
  "result_of t = Some r \<Longrightarrow> snd (resume s t) = s \<and> result_of (fst (resume s t)) = Some r"
proof (cases t)
  case (Suspended n r')
  assume "result_of t = Some r"
  with Suspended show ?thesis by (cases n) simp_all
qed simp_all

lemma resume_start:
  "snd (resume s (Start u l)) = snd (add_mail s u l)
   \<and> result_of (fst (resume s (Start u l))) = Some (fst (add_mail s u l))"
  by (cases "add_mail s u l") simp

lemma length_event_loop: "length (snd (event_loop s ts sch)) = length ts"
  unfolding event_loop_def
proof (induction sch arbitrary: s ts)
  case Nil
  show ?case by simp
next
  case (Cons i sch)
  show ?case
  proof (cases "i < length ts")
    case True
    obtain t' s' where r: "resume s (ts ! i) = (t', s')" by (cases "resume s (ts ! i)")
    show ?thesis using True r Cons [of s' "ts[i := t']"] by simp
  next
    case False
    then show ?thesis using Cons [of s ts] by simp
  qed
qed

lemma needs_event_loop:
  "i < length ts \<Longrightarrow> needs (snd (event_loop s ts sch) ! i) \<le> needs (ts ! i) - count_list sch i"
  unfolding event_loop_def
proof (induction sch arbitrary: s ts)
  case Nil
  show ?case by simp
next
  case (Cons j sch)
  show ?case
  proof (cases "j < length ts")
    case True
    obtain t' s' where r: "resume s (ts ! j) = (t', s')" by (cases "resume s (ts ! j)")
    have l: "i < length (ts[j := t'])" using Cons.prems by simp
    have st: "foldl sched_step (s, ts) (j # sch) = foldl sched_step (s', ts[j := t']) sch"
      using True r by simp
    show ?thesis
    proof (cases "j = i")
      case True
      have "needs t' \<le> needs (ts ! i) - 1" using needs_resume [of s "ts ! i"] r True by simp
      then show ?thesis
        using Cons.IH [OF l, of s'] Cons.prems True unfolding st by simp
    next
      case False
      then show ?thesis
        using Cons.IH [OF l, of s'] unfolding st by simp
    qed
  next
    case False
    with Cons.prems have "j \<noteq> i" by auto
    then show ?thesis using False Cons.IH [OF Cons.prems, of s] by simp
  qed
qed

lemma needs_0: "needs t = 0 \<Longrightarrow> result_of t = Some r \<Longrightarrow> t = Returned r"
  by (cases t) simp_all


text \<open>
  Whatever the schedule, the database is the one that results from handling the presses
  one after the other, in the order in which the schedule first resumes them: each
  \<^verbatim>\<open>add_mail\<close> reads and writes the database without interruption, before its first
  \<^verbatim>\<open>await\<close>.
\<close>

lemma start_order_snoc:
  "start_order n (sch @ [i])
     = (if i < n \<and> i \<notin> set (start_order n sch) then start_order n sch @ [i]
        else start_order n sch)"
  by (simp add: start_order_def)

lemma event_loop_snoc: "event_loop s ts (sch @ [i]) = sched_step (event_loop s ts sch) i"
  by (simp add: event_loop_def)

lemma run_snoc: "run s (evs @ [ev]) = handle (run s evs) ev"
  by (simp add: run_def)

lemma event_loop_serial_inv:
  fixes calls :: "(int \<times> int) list"
  defines "ts0 \<equiv> map (\<lambda>c. Start (fst c) (snd c)) calls"
  shows "fst (event_loop s ts0 sch) = run s (map (press calls) (start_order (length calls) sch))
    \<and> length (snd (event_loop s ts0 sch)) = length calls
    \<and> (\<forall>i < length calls.
          if i \<in> set (start_order (length calls) sch)
          then result_of (snd (event_loop s ts0 sch) ! i) \<noteq> None
          else snd (event_loop s ts0 sch) ! i = ts0 ! i)"
proof (induction sch rule: rev_induct)
  case Nil
  show ?case by (simp add: event_loop_def start_order_def run_def ts0_def)
next
  case (snoc i sch)
  obtain s' ts where c: "event_loop s ts0 sch = (s', ts)" by (cases "event_loop s ts0 sch")
  let ?js = "start_order (length calls) sch"
  note ih = snoc [unfolded c fst_conv snd_conv]
  from ih have db: "s' = run s (map (press calls) ?js)" and len: "length ts = length calls"
    by simp_all
  from ih have tasks: "(if k \<in> set ?js then result_of (ts ! k) \<noteq> None else ts ! k = ts0 ! k)"
    if "k < length calls" for k
    using that by blast
  show ?case
  proof (cases "i < length calls")
    case False
    have "event_loop s ts0 (sch @ [i]) = (s', ts)"
      using False len by (simp add: event_loop_snoc c)
    moreover have "start_order (length calls) (sch @ [i]) = ?js"
      using False by (simp add: start_order_snoc)
    ultimately show ?thesis using ih by simp
  next
    case True
    show ?thesis
    proof (cases "i \<in> set ?js")
      case started: True
      with tasks [OF True] obtain r where r: "result_of (ts ! i) = Some r" by auto
      obtain t' where t': "resume s' (ts ! i) = (t', s')" "result_of t' = Some r"
        using resume_started [OF r, of s'] by (cases "resume s' (ts ! i)") auto
      have el: "event_loop s ts0 (sch @ [i]) = (s', ts[i := t'])"
        using True len t'(1) by (simp add: event_loop_snoc c)
      have so: "start_order (length calls) (sch @ [i]) = ?js"
        using started by (simp add: start_order_snoc)
      have "(if k \<in> set ?js then result_of (ts[i := t'] ! k) \<noteq> None
           else ts[i := t'] ! k = ts0 ! k)" if k: "k < length calls" for k
        using tasks [OF k] t'(2) started len k by (cases "k = i") simp_all
      then have "\<forall>k < length calls. if k \<in> set ?js then result_of (ts[i := t'] ! k) \<noteq> None
           else ts[i := t'] ! k = ts0 ! k"
        by blast
      then show ?thesis
        unfolding el so fst_conv snd_conv using db len by simp
    next
      case False
      with tasks [OF True] have st: "ts ! i = Start (fst (calls ! i)) (snd (calls ! i))"
        using True by (simp add: ts0_def)
      obtain t' s'' where t': "resume s' (ts ! i) = (t', s'')"
        by (cases "resume s' (ts ! i)")
      have s'': "s'' = handle s' (press calls i)" and rt: "result_of t' \<noteq> None"
        using resume_start [of s' "fst (calls ! i)" "snd (calls ! i)"] t' st
        by (simp_all add: press_def)
      have el: "event_loop s ts0 (sch @ [i]) = (s'', ts[i := t'])"
        using True len t' by (simp add: event_loop_snoc c)
      have so: "start_order (length calls) (sch @ [i]) = ?js @ [i]"
        using False True by (simp add: start_order_snoc)
      have "(if k \<in> set (?js @ [i]) then result_of (ts[i := t'] ! k) \<noteq> None
           else ts[i := t'] ! k = ts0 ! k)" if k: "k < length calls" for k
        using tasks [OF k] rt len k by (cases "k = i") simp_all
      then have "\<forall>k < length calls.
           if k \<in> set (?js @ [i]) then result_of (ts[i := t'] ! k) \<noteq> None
           else ts[i := t'] ! k = ts0 ! k"
        by blast
      moreover have "s'' = run s (map (press calls) (?js @ [i]))"
        using s'' db by (simp add: run_snoc)
      ultimately show ?thesis
        unfolding el so fst_conv snd_conv using len by simp
    qed
  qed
qed

lemma event_loop_serial:
  "fst (event_loop s (map (\<lambda>c. Start (fst c) (snd c)) calls) sch)
     = run s (map (press calls) (start_order (length calls) sch))"
  using event_loop_serial_inv [of s calls sch] by simp

subsection \<open>Two presses on one list\<close>

text \<open>One append after the other, for two different validated addresses.\<close>

lemma two_appends:
  assumes "get_email s u1 = Some e1" and "get_email s u2 = Some e2" and "e1 \<noteq> e2"
    and "one_line e1" and "one_line e2" and "get_list s l = Inr t" and "\<not> lf_adds_empty t"
    and "e1 \<notin> set (splitlines t)" and "e2 \<notin> set (splitlines t)"
  shows "add_mail s u1 l = (Inr (Edited (t @ 10 # e1)), update_list s l (t @ 10 # e1))"
    and "add_mail (update_list s l (t @ 10 # e1)) u2 l
      = (Inr (Edited ((t @ 10 # e1) @ 10 # e2)),
         update_list (update_list s l (t @ 10 # e1)) l ((t @ 10 # e1) @ 10 # e2))"
    and "entries (update_list (update_list s l (t @ 10 # e1)) l ((t @ 10 # e1) @ 10 # e2)) l
      = entries s l @ [e1, e2]"
proof -
  let ?t1 = "t @ 10 # e1"
  let ?s1 = "update_list s l ?t1"
  show "add_mail s u1 l = (Inr (Edited ?t1), ?s1)"
    by (rule add_mail_added [OF assms(1,6,8)])
  have e: "get_email ?s1 u2 = Some e2" using assms(2) by (simp add: get_email_update_list)
  have g: "get_list ?s1 l = Inr ?t1" using assms(6) by (simp add: get_list_update_list)
  have l1: "splitlines ?t1 = splitlines t @ [e1]"
    using splitlines_append_lf [OF assms(4), of t] assms(7) by simp
  with assms(3,9) have m: "e2 \<notin> set (splitlines ?t1)" by auto
  show "add_mail ?s1 u2 l = (Inr (Edited (?t1 @ 10 # e2)), update_list ?s1 l (?t1 @ 10 # e2))"
    by (rule add_mail_added [OF e g m])
  have l2: "splitlines (?t1 @ 10 # e2) = splitlines t @ [e1, e2]"
    using splitlines_append_lf [OF assms(5), of ?t1] one_line_last [OF assms(4), of t] l1
    by simp
  have "get_list (update_list ?s1 l (?t1 @ 10 # e2)) l = Inr (?t1 @ 10 # e2)"
    using g by (simp add: get_list_update_list)
  with l2 assms(6) show "entries (update_list ?s1 l (?t1 @ 10 # e2)) l = entries s l @ [e1, e2]"
    by (simp add: entries_def)
qed

lemma two_presses_outcome:
  assumes "get_email s u1 = Some e1" and "get_email s u2 = Some e2" and "e1 \<noteq> e2"
    and "one_line e1" and "one_line e2" and "get_list s l = Inr t" and "\<not> lf_adds_empty t"
    and "e1 \<notin> set (splitlines t)" and "e2 \<notin> set (splitlines t)"
    and "3 \<le> count_list sch 0" and "3 \<le> count_list sch 1"
  shows "(snd (event_loop s [Start u1 l, Start u2 l] sch)
            = [Returned (Inr (Edited (t @ 10 # e1))),
               Returned (Inr (Edited ((t @ 10 # e1) @ 10 # e2)))]
          \<and> entries (fst (event_loop s [Start u1 l, Start u2 l] sch)) l = entries s l @ [e1, e2])
       \<or> (snd (event_loop s [Start u1 l, Start u2 l] sch)
            = [Returned (Inr (Edited ((t @ 10 # e2) @ 10 # e1))),
               Returned (Inr (Edited (t @ 10 # e2)))]
          \<and> entries (fst (event_loop s [Start u1 l, Start u2 l] sch)) l = entries s l @ [e2, e1])"
proof -
  define r1 where "r1 = (Inr (Edited (t @ 10 # e1)) :: error + reply)"
  define s1 where "s1 = update_list s l (t @ 10 # e1)"
  define r12 where "r12 = (Inr (Edited ((t @ 10 # e1) @ 10 # e2)) :: error + reply)"
  define s12 where "s12 = update_list s1 l ((t @ 10 # e1) @ 10 # e2)"
  define r2 where "r2 = (Inr (Edited (t @ 10 # e2)) :: error + reply)"
  define s2 where "s2 = update_list s l (t @ 10 # e2)"
  define r21 where "r21 = (Inr (Edited ((t @ 10 # e2) @ 10 # e1)) :: error + reply)"
  define s21 where "s21 = update_list s2 l ((t @ 10 # e2) @ 10 # e1)"
  note defs = r1_def s1_def r12_def s12_def r2_def s2_def r21_def s21_def
  have a1: "add_mail s u1 l = (r1, s1)" and a12: "add_mail s1 u2 l = (r12, s12)"
    and en12: "entries s12 l = entries s l @ [e1, e2]"
    unfolding defs by (rule two_appends [OF assms(1,2,3,4,5,6,7,8,9)])+
  have a2: "add_mail s u2 l = (r2, s2)" and a21: "add_mail s2 u1 l = (r21, s21)"
    and en21: "entries s21 l = entries s l @ [e2, e1]"
    unfolding defs
    by (rule two_appends [OF assms(2,1) assms(3) [symmetric] assms(5,4,6,7,9,8)])+
  define Inv where "Inv = (\<lambda>c :: db \<times> task list. \<exists>a b. snd c = [a, b] \<and>
     (fst c = s \<and> a = Start u1 l \<and> b = Start u2 l
      \<or> fst c = s1 \<and> result_of a = Some r1 \<and> b = Start u2 l
      \<or> fst c = s2 \<and> a = Start u1 l \<and> result_of b = Some r2
      \<or> fst c = s12 \<and> result_of a = Some r1 \<and> result_of b = Some r12
      \<or> fst c = s21 \<and> result_of a = Some r21 \<and> result_of b = Some r2))"
  have step0: "Inv (sched_step c 0)" if "Inv c" for c
  proof -
    from that obtain s' a b where c: "c = (s', [a, b])"
      by (cases c) (auto simp: Inv_def)
    have st: "sched_step c 0 = (snd (resume s' a), [fst (resume s' a), b])"
      by (simp add: c split: prod.splits)
    show ?thesis
    proof (cases "result_of a")
      case None
      with that have "a = Start u1 l" by (auto simp: Inv_def c)
      moreover from that None
      have "s' = s \<and> b = Start u2 l \<or> s' = s2 \<and> result_of b = Some r2"
        by (auto simp: Inv_def c)
      ultimately show ?thesis
        unfolding st using resume_start [of s u1 l] resume_start [of s2 u1 l] a1 a21
        by (auto simp: Inv_def)
    next
      case (Some r)
      from that Some have "s' = s1 \<and> r = r1 \<and> b = Start u2 l
          \<or> s' = s12 \<and> r = r1 \<and> result_of b = Some r12
          \<or> s' = s21 \<and> r = r21 \<and> result_of b = Some r2"
        by (auto simp: Inv_def c)
      then show ?thesis
        unfolding st using resume_started [OF Some, of s'] by (auto simp: Inv_def)
    qed
  qed
  have step1: "Inv (sched_step c 1)" if "Inv c" for c
  proof -
    from that obtain s' a b where c: "c = (s', [a, b])"
      by (cases c) (auto simp: Inv_def)
    have st: "sched_step c 1 = (snd (resume s' b), [a, fst (resume s' b)])"
      by (simp add: c split: prod.splits)
    show ?thesis
    proof (cases "result_of b")
      case None
      with that have "b = Start u2 l" by (auto simp: Inv_def c)
      moreover from that None
      have "s' = s \<and> a = Start u1 l \<or> s' = s1 \<and> result_of a = Some r1"
        by (auto simp: Inv_def c)
      ultimately show ?thesis
        unfolding st using resume_start [of s u2 l] resume_start [of s1 u2 l] a2 a12
        by (auto simp: Inv_def)
    next
      case (Some r)
      from that Some have "s' = s2 \<and> r = r2 \<and> a = Start u1 l
          \<or> s' = s12 \<and> r = r12 \<and> result_of a = Some r1
          \<or> s' = s21 \<and> r = r2 \<and> result_of a = Some r21"
        by (auto simp: Inv_def c)
      then show ?thesis
        unfolding st using resume_started [OF Some, of s'] by (auto simp: Inv_def)
    qed
  qed
  have step: "Inv (sched_step c i)" if "Inv c" for c i
  proof -
    consider "i = 0" | "i = 1" | "2 \<le> i" by linarith
    then show ?thesis
    proof cases
      case 1
      show ?thesis unfolding 1 using that by (rule step0)
    next
      case 2
      show ?thesis unfolding 2 using that by (rule step1)
    next
      case 3
      from that obtain s' a b where c: "c = (s', [a, b])"
        by (cases c) (auto simp: Inv_def)
      from 3 have "sched_step c i = c" by (simp add: c)
      with that show ?thesis by simp
    qed
  qed
  have run: "Inv (foldl sched_step c sch')" if "Inv c" for c sch'
    using that by (induction sch' arbitrary: c) (simp_all add: step)
  have "Inv (s, [Start u1 l, Start u2 l])" by (simp add: Inv_def)
  then have inv: "Inv (event_loop s [Start u1 l, Start u2 l] sch)"
    unfolding event_loop_def by (rule run)
  then obtain a b where ab: "snd (event_loop s [Start u1 l, Start u2 l] sch) = [a, b]"
    by (auto simp: Inv_def)
  have "needs a = 0" and "needs b = 0"
    using needs_event_loop [of 0 "[Start u1 l, Start u2 l]" s sch]
      needs_event_loop [of 1 "[Start u1 l, Start u2 l]" s sch] assms(10,11)
    by (simp_all add: ab)
  then have "a = Returned r1 \<and> b = Returned r12
        \<and> fst (event_loop s [Start u1 l, Start u2 l] sch) = s12
      \<or> a = Returned r21 \<and> b = Returned r2
        \<and> fst (event_loop s [Start u1 l, Start u2 l] sch) = s21"
    using inv ab by (auto simp: Inv_def dest: needs_0)
  then show ?thesis
    using en12 en21 unfolding ab r1_def r12_def r2_def r21_def by auto
qed


text \<open>
  C1, as the program has it. Handlers are interleaved at their \<^verbatim>\<open>await\<close>s only and
  \<^verbatim>\<open>add_mail\<close> makes all its database calls before its first \<^verbatim>\<open>await\<close>; no lock is
  taken. For a new list, whose text is its title, and two presses by users with different
  validated addresses, where neither address is a line of the title and the title does
  not end in a line boundary (a final CR aside): under every schedule the database is the
  one of the two presses handled one after the other in the order of their first turn,
  and under every schedule that resumes each task three times or more both tasks finish
  with a successful reply, the later one computed on the text the earlier one stored, and
  the entries after the title are the two addresses, once each, in the order of the
  turns.
\<close>

theorem interleaved_appends:
  assumes "get_email s u1 = Some e1" and "get_email s u2 = Some e2" and "e1 \<noteq> e2"
    and "one_line e1" and "one_line e2" and "get_list s l = Inr list_title"
    and "\<not> lf_adds_empty list_title"
    and "e1 \<notin> set (splitlines list_title)" and "e2 \<notin> set (splitlines list_title)"
    and "3 \<le> count_list sch 0" and "3 \<le> count_list sch 1"
  shows "fst (event_loop s [Start u1 l, Start u2 l] sch)
           = run s (map (press [(u1, l), (u2, l)]) (start_order 2 sch))
    \<and> ((snd (event_loop s [Start u1 l, Start u2 l] sch)
            = [Returned (Inr (Edited (list_title @ 10 # e1))),
               Returned (Inr (Edited ((list_title @ 10 # e1) @ 10 # e2)))]
          \<and> entries_after list_title (fst (event_loop s [Start u1 l, Start u2 l] sch)) l
              = [e1, e2])
       \<or> (snd (event_loop s [Start u1 l, Start u2 l] sch)
            = [Returned (Inr (Edited ((list_title @ 10 # e2) @ 10 # e1))),
               Returned (Inr (Edited (list_title @ 10 # e2)))]
          \<and> entries_after list_title (fst (event_loop s [Start u1 l, Start u2 l] sch)) l
              = [e2, e1]))"
proof -
  have "fst (event_loop s [Start u1 l, Start u2 l] sch)
      = run s (map (press [(u1, l), (u2, l)]) (start_order 2 sch))"
    using event_loop_serial [of s "[(u1, l), (u2, l)]" sch] by (simp add: numeral_2_eq_2)
  moreover have "entries s l = splitlines list_title"
    using assms(6) by (simp add: entries_def)
  ultimately show ?thesis
    using two_presses_outcome [OF assms] by (auto simp: entries_after_def)
qed

lemma alternating_schedule:
  assumes "add_mail s u1 l = (Inr (Edited x), s1)" and "add_mail s1 u2 l = (Inr (Edited y), s12)"
  shows "event_loop s [Start u1 l, Start u2 l] [0, 1, 0, 1, 0, 1]
    = (s12, [Returned (Inr (Edited x)), Returned (Inr (Edited y))])"
  by (simp add: event_loop_def assms)

lemma shop_two_appends:
  "add_mail shop_db 1 1
     = (Inr (Edited (groceries @ 10 # alice)), update_list shop_db 1 (groceries @ 10 # alice))"
  "add_mail (update_list shop_db 1 (groceries @ 10 # alice)) 2 1
     = (Inr (Edited ((groceries @ 10 # alice) @ 10 # bob)),
        update_list (update_list shop_db 1 (groceries @ 10 # alice)) 1
          ((groceries @ 10 # alice) @ 10 # bob))"
  "entries (update_list (update_list shop_db 1 (groceries @ 10 # alice)) 1
          ((groceries @ 10 # alice) @ 10 # bob)) 1 = entries shop_db 1 @ [alice, bob]"
  by (rule two_appends [OF shop_db_lookup(1,2) example_lines(4,1,2) shop_db_lookup(4)
      groceries_lines(2,3,4)])+

lemma shop_two_presses:
  "event_loop shop_db [Start 1 1, Start 2 1] [0, 1, 0, 1, 0, 1]
     = (update_list (update_list shop_db 1 (groceries @ 10 # alice)) 1
          ((groceries @ 10 # alice) @ 10 # bob),
        [Returned (Inr (Edited (groceries @ 10 # alice))),
         Returned (Inr (Edited ((groceries @ 10 # alice) @ 10 # bob)))])"
  by (rule alternating_schedule [OF shop_two_appends(1,2)])

theorem interleaved_appends_witness:
  "get_email shop_db 1 = Some alice \<and> get_email shop_db 2 = Some bob \<and> alice \<noteq> bob
   \<and> one_line alice \<and> one_line bob \<and> get_list shop_db 1 = Inr groceries
   \<and> \<not> lf_adds_empty groceries
   \<and> alice \<notin> set (splitlines groceries) \<and> bob \<notin> set (splitlines groceries)
   \<and> 3 \<le> count_list [0, 1, 0, 1, 0, 1] (0::nat) \<and> 3 \<le> count_list [0, 1, 0, 1, 0, 1] (1::nat)
   \<and> snd (event_loop shop_db [Start 1 1, Start 2 1] [0, 1, 0, 1, 0, 1])
       = [Returned (Inr (Edited (groceries @ 10 # alice))),
          Returned (Inr (Edited ((groceries @ 10 # alice) @ 10 # bob)))]
   \<and> entries_after groceries
        (fst (event_loop shop_db [Start 1 1, Start 2 1] [0, 1, 0, 1, 0, 1])) 1
       = [alice, bob]"
proof -
  have c: "3 \<le> count_list [0, 1, 0, 1, 0, 1] (0::nat)" "3 \<le> count_list [0, 1, 0, 1, 0, 1] (1::nat)"
    by simp_all
  have r: "snd (event_loop shop_db [Start 1 1, Start 2 1] [0, 1, 0, 1, 0, 1])
       = [Returned (Inr (Edited (groceries @ 10 # alice))),
          Returned (Inr (Edited ((groceries @ 10 # alice) @ 10 # bob)))]"
    unfolding shop_two_presses by simp
  have d: "groceries @ 10 # alice \<noteq> (groceries @ 10 # bob) @ 10 # alice"
    by (simp add: alice_def bob_def str_def)
  from interleaved_appends [OF shop_db_lookup(1,2) example_lines(4,1,2) shop_db_lookup(4)
        groceries_lines(2,3,4) c] r d
  have "entries_after groceries
        (fst (event_loop shop_db [Start 1 1, Start 2 1] [0, 1, 0, 1, 0, 1])) 1 = [alice, bob]"
    by auto
  with r c shop_db_lookup(1,2,4) example_lines(4,1,2) groceries_lines(2,3,4)
  show ?thesis by blast
qed

text \<open>
  C1 as stated has both presses succeed and two entries at the end, for every new list
  and every two registered addresses. On a list whose title is the address of user 1 the
  press of user 1 is answered that the address was added already, and one entry follows
  the title; after a title that ends in a newline three entries follow it, the first
  empty; and when user 1 is registered with a string that has a form feed in it, three
  entries follow the title, none of them that string.
\<close>

theorem two_presses_counterexamples:
  "get_list named_db 1 = Inr alice \<and> get_email named_db 1 = Some alice
   \<and> snd (event_loop named_db [Start 1 1, Start 2 1] [0, 1, 0, 1, 0, 1])
       = [Returned (Inr AlreadyAdded), Returned (Inr (Edited (alice @ 10 # bob)))]
   \<and> entries_after alice (fst (event_loop named_db [Start 1 1, Start 2 1] [0, 1, 0, 1, 0, 1])) 1
       = [bob]
   \<and> get_list trailing_db 1 = Inr (groceries @ [10])
   \<and> entries_after (groceries @ [10])
        (fst (event_loop trailing_db [Start 1 1, Start 2 1] [0, 1, 0, 1, 0, 1])) 1
       = [[], alice, bob]
   \<and> get_list formfeed_db 1 = Inr groceries \<and> get_email formfeed_db 1 = Some formfeed
   \<and> entries_after groceries
        (fst (event_loop formfeed_db [Start 1 1, Start 2 1] [0, 1, 0, 1, 0, 1])) 1
       = [[97], [98], bob]"
  by (simp add: event_loop_def named_db_def trailing_db_def formfeed_db_def run_defs)

end
